theory Spec2Isabelle
  imports Main "HOL-Library.Multiset"
begin

section \<open>Python values used by main.py\<close>

text \<open>
  The exceptions the modelled code can raise. \<open>IndexError\<close> is what a list subscript
  out of range raises; \<open>RecursionError\<close> is what a call raises when no further frame of
  \<open>_backtrack\<close> is available.
\<close>

datatype error = IndexError | RecursionError

text \<open>
  \<open>xs[i]\<close>, \<open>xs[i] = v\<close> and \<open>xs.pop()\<close> on a Python list: a negative index counts
  from the end, any index outside \<open>[-len, len)\<close> raises, and \<open>pop\<close> raises on the
  empty list.
\<close>

definition py_get :: "'a list \<Rightarrow> int \<Rightarrow> error + 'a" where
  "py_get xs i =
     (let l = int (length xs); j = (if i < 0 then l + i else i)
      in if 0 \<le> j \<and> j < l then Inr (xs ! nat j) else Inl IndexError)"

definition py_set :: "'a list \<Rightarrow> int \<Rightarrow> 'a \<Rightarrow> error + 'a list" where
  "py_set xs i v =
     (let l = int (length xs); j = (if i < 0 then l + i else i)
      in if 0 \<le> j \<and> j < l then Inr (xs[nat j := v]) else Inl IndexError)"

definition py_pop :: "'a list \<Rightarrow> error + 'a list" where
  "py_pop xs = (if xs = [] then Inl IndexError else Inr (butlast xs))"

definition py_range :: "int \<Rightarrow> int list" where
  "py_range k = [0..k - 1]"

section \<open>class Graph\<close>

text \<open>
  The fields of \<open>Graph\<close>: \<open>gn\<close> is the attribute \<open>n\<close>, \<open>directed\<close> and \<open>adj\<close> are
  the attributes of the same names. \<open>adj\<close> is a \<open>list[set[int]]\<close>; each set is
  represented by the sequence in which the set iterates, so that \<open>len\<close> of the set is
  the length of the sequence and membership is membership in the sequence.
\<close>

record graph =
  gn :: int
  directed :: bool
  adj :: "int list list"

text \<open>\<open>Graph.__init__\<close>: \<open>[set() for _ in range(n)]\<close> is empty when \<open>n\<close> is negative.\<close>

definition Graph_init :: "int \<Rightarrow> bool \<Rightarrow> graph" where
  "Graph_init k d = \<lparr>gn = k, directed = d, adj = replicate (nat k) []\<rparr>"

text \<open>
  \<open>s.add(x)\<close> on a set: nothing happens when \<open>x\<close> is a member. Where a new element lands
  in the iteration sequence is decided by the interpreter's hash table, so it is the
  parameter \<open>place\<close>; \<open>set_order place\<close> says that \<open>place\<close> adds the element and nothing
  else.
\<close>

definition set_add :: "(int \<Rightarrow> int list \<Rightarrow> int list) \<Rightarrow> int list \<Rightarrow> int \<Rightarrow> int list" where
  "set_add place s x = (if x \<in> set s then s else place x s)"

definition set_order :: "(int \<Rightarrow> int list \<Rightarrow> int list) \<Rightarrow> bool" where
  "set_order place \<longleftrightarrow>
     (\<forall>x s. x \<notin> set s \<longrightarrow>
        set (place x s) = insert x (set s) \<and> (distinct s \<longrightarrow> distinct (place x s)))"

definition add_edge ::
  "(int \<Rightarrow> int list \<Rightarrow> int list) \<Rightarrow> graph \<Rightarrow> int \<Rightarrow> int \<Rightarrow> error + graph" where
  "add_edge place g u v =
     (if u = v then Inr g
      else if \<not> (0 \<le> u \<and> u < gn g \<and> 0 \<le> v \<and> v < gn g) then Inr g
      else case py_get (adj g) u of
             Inl e \<Rightarrow> Inl e
           | Inr su \<Rightarrow>
               (let g1 = g\<lparr>adj := (adj g)[nat u := set_add place su v]\<rparr>
                in if \<not> directed g1 then
                     (case py_get (adj g1) v of
                        Inl e \<Rightarrow> Inl e
                      | Inr sv \<Rightarrow> Inr (g1\<lparr>adj := (adj g1)[nat v := set_add place sv u]\<rparr>))
                   else Inr g1))"

text \<open>A sequence of \<open>add_edge\<close> calls; the first exception ends it.\<close>

fun add_edges ::
  "(int \<Rightarrow> int list \<Rightarrow> int list) \<Rightarrow> graph \<Rightarrow> (int \<times> int) list \<Rightarrow> error + graph" where
  "add_edges place g [] = Inr g"
| "add_edges place g ((u, v) # es) =
     (case add_edge place g u v of Inl e \<Rightarrow> Inl e | Inr g1 \<Rightarrow> add_edges place g1 es)"

text \<open>The key of the sort in \<open>neighbors\<close>: \<open>len(self.adj[x])\<close>.\<close>

definition degree :: "graph \<Rightarrow> int \<Rightarrow> error + nat" where
  "degree g x = (case py_get (adj g) x of Inl e \<Rightarrow> Inl e | Inr s \<Rightarrow> Inr (length s))"

text \<open>
  \<open>Graph.neighbors\<close>. \<open>sorted\<close> computes every key first, so a key that raises makes the
  call raise; it then sorts stably, as \<open>sort_key\<close> does.
\<close>

definition neighbors :: "graph \<Rightarrow> int \<Rightarrow> error + int list" where
  "neighbors g u =
     (if \<not> (0 \<le> u \<and> u < gn g) then Inr []
      else case py_get (adj g) u of
             Inl e \<Rightarrow> Inl e
           | Inr s \<Rightarrow>
               if \<exists>x\<in>set s. isl (degree g x) then Inl IndexError
               else Inr (sort_key (\<lambda>x. projr (degree g x)) s))"

section \<open>Validation\<close>

text \<open>The loop \<open>for i in range(len(path) - 1)\<close> of \<open>is_hamiltonian_path\<close>.\<close>

fun check_edges :: "graph \<Rightarrow> int list \<Rightarrow> nat list \<Rightarrow> error + bool" where
  "check_edges g path [] = Inr True"
| "check_edges g path (i # rest) =
     (let u = path ! i; v = path ! (i + 1)
      in case neighbors g u of
           Inl e \<Rightarrow> Inl e
         | Inr ns \<Rightarrow>
             if directed g then
               (if v \<notin> set ns then Inr False else check_edges g path rest)
             else
               (if v \<notin> set ns then Inr False else check_edges g path rest))"

definition is_hamiltonian_path :: "graph \<Rightarrow> int list \<Rightarrow> error + bool" where
  "is_hamiltonian_path g path =
     (let k = gn g
      in if int (length path) \<noteq> k then Inr False
         else if set path \<noteq> set (py_range k) then Inr False
         else check_edges g path [0..<length path - 1])"

section \<open>Search\<close>

text \<open>
  \<open>_backtrack\<close> works on three objects it shares with its caller: the graph, the list
  \<open>path\<close> and the list \<open>visited\<close>. The model passes all three in and returns all three
  with the result. The first argument is the number of nested \<open>_backtrack\<close> frames that
  are still available; a call with none left raises \<open>RecursionError\<close>.
  \<open>backtrack_loop\<close> is the \<open>for neighbor in g.neighbors(current)\<close> loop, on the
  neighbours that are still to be tried.
\<close>

type_synonym search_result = "int list option \<times> graph \<times> int list \<times> bool list"

fun backtrack :: "nat \<Rightarrow> graph \<Rightarrow> int \<Rightarrow> int list \<Rightarrow> bool list \<Rightarrow> error + search_result"
and backtrack_loop ::
  "nat \<Rightarrow> int list \<Rightarrow> graph \<Rightarrow> int list \<Rightarrow> bool list \<Rightarrow> error + search_result" where
  "backtrack 0 g current path visited = Inl RecursionError"
| "backtrack (Suc d) g current path visited =
     (if int (length path) = gn g then Inr (Some path, g, path, visited)
      else case neighbors g current of
             Inl e \<Rightarrow> Inl e
           | Inr ns \<Rightarrow> backtrack_loop d ns g path visited)"
| "backtrack_loop d [] g path visited = Inr (None, g, path, visited)"
| "backtrack_loop d (neighbor # rest) g path visited =
     (case py_get visited neighbor of
        Inl e \<Rightarrow> Inl e
      | Inr seen \<Rightarrow>
          if \<not> seen then
            (case py_set visited neighbor True of
               Inl e \<Rightarrow> Inl e
             | Inr visited1 \<Rightarrow>
                 (case backtrack d g neighbor (path @ [neighbor]) visited1 of
                    Inl e \<Rightarrow> Inl e
                  | Inr (Some result, g2, path2, visited2) \<Rightarrow>
                      Inr (Some result, g2, path2, visited2)
                  | Inr (None, g2, path2, visited2) \<Rightarrow>
                      (case py_pop path2 of
                         Inl e \<Rightarrow> Inl e
                       | Inr path3 \<Rightarrow>
                           (case py_set visited2 neighbor False of
                              Inl e \<Rightarrow> Inl e
                            | Inr visited3 \<Rightarrow> backtrack_loop d rest g2 path3 visited3))))
          else backtrack_loop d rest g path visited)"

text \<open>
  The loop \<open>for start in range(n)\<close> of \<open>find_hamiltonian_path\<close>. Every start vertex
  gets a fresh \<open>visited\<close> and \<open>path\<close>, and the same number of frames for its call of
  \<open>_backtrack\<close>; \<open>k\<close> is the local \<open>n\<close>.
\<close>

fun find_loop :: "nat \<Rightarrow> int \<Rightarrow> int list \<Rightarrow> graph \<Rightarrow> error + (int list option \<times> graph)" where
  "find_loop d k [] g = Inr (None, g)"
| "find_loop d k (start # rest) g =
     (case py_set (replicate (nat k) False) start True of
        Inl e \<Rightarrow> Inl e
      | Inr visited \<Rightarrow>
          (case backtrack d g start ([] @ [start]) visited of
             Inl e \<Rightarrow> Inl e
           | Inr (Some result, g2, path2, visited2) \<Rightarrow> Inr (Some result, g2)
           | Inr (None, g2, path2, visited2) \<Rightarrow> find_loop d k rest g2))"

definition find_hamiltonian_path :: "nat \<Rightarrow> graph \<Rightarrow> error + (int list option \<times> graph)" where
  "find_hamiltonian_path d g =
     (let k = gn g
      in if k = 0 then Inr (Some [], g)
         else if k = 1 then Inr (Some [0], g)
         else find_loop d k (py_range k) g)"

section \<open>Specification predicates\<close>

text \<open>
  The state a \<open>Graph\<close> object is in after its constructor: one adjacency set for each
  vertex, holding vertex identifiers only.
\<close>

definition wf_graph :: "graph \<Rightarrow> bool" where
  "wf_graph g \<longleftrightarrow>
     length (adj g) = nat (gn g) \<and> (\<forall>s\<in>set (adj g). \<forall>x\<in>set s. 0 \<le> x \<and> x < gn g)"

text \<open>
  The invariant of the adjacency sets: no repetition in a set, identifiers in range, no
  self-loop, and symmetry when the graph is not directed.
\<close>

definition adj_inv :: "graph \<Rightarrow> bool" where
  "adj_inv g \<longleftrightarrow>
     length (adj g) = nat (gn g) \<and>
     (\<forall>u<length (adj g). distinct (adj g ! u) \<and>
        (\<forall>x\<in>set (adj g ! u). 0 \<le> x \<and> x < gn g \<and> x \<noteq> int u \<and>
           (\<not> directed g \<longrightarrow> int u \<in> set (adj g ! nat x))))"

text \<open>
  A Hamiltonian path of \<open>g\<close>: as many entries as vertices, every vertex among them, and
  an edge from each entry to the next.
\<close>

definition hamiltonian :: "graph \<Rightarrow> int list \<Rightarrow> bool" where
  "hamiltonian g p \<longleftrightarrow>
     int (length p) = gn g \<and> set p = {0..<gn g} \<and>
     (\<forall>i\<in>{0..<length p - 1}. p ! Suc i \<in> set (adj g ! nat (p ! i)))"

text \<open>A list in which each entry has the next one in its adjacency set.\<close>

definition walk :: "graph \<Rightarrow> int list \<Rightarrow> bool" where
  "walk g p \<longleftrightarrow> successively (\<lambda>u v. v \<in> set (adj g ! nat u)) p"

text \<open>
  The search state: \<open>visited\<close> has one entry for each vertex, and the entry of a vertex is
  true exactly when the vertex is on \<open>path\<close>, which holds vertices without repetition.
\<close>

definition consistent :: "graph \<Rightarrow> int list \<Rightarrow> bool list \<Rightarrow> bool" where
  "consistent g path visited \<longleftrightarrow>
     length visited = nat (gn g) \<and> distinct path \<and>
     (\<forall>x\<in>set path. 0 \<le> x \<and> x < gn g) \<and>
     (\<forall>i<length visited. visited ! i \<longleftrightarrow> int i \<in> set path)"

section \<open>Example graphs\<close>

text \<open>The directed graph \<open>0 \<rightarrow> 1 \<rightarrow> 2\<close>, and the same edges reversed.\<close>

definition chain3 :: graph where
  "chain3 = \<lparr>gn = 3, directed = True, adj = [[1], [2], []]\<rparr>"

definition rev_chain3 :: graph where
  "rev_chain3 = \<lparr>gn = 3, directed = True, adj = [[], [0], [1]]\<rparr>"

text \<open>The directed graph on three vertices with the single edge \<open>0 \<rightarrow> 1\<close>.\<close>

definition edge3 :: graph where
  "edge3 = \<lparr>gn = 3, directed = True, adj = [[1], [], []]\<rparr>"

text \<open>An undirected graph in which vertex 0 has neighbours of degree 2, 2 and 1.\<close>

definition star4 :: graph where
  "star4 = \<lparr>gn = 4, directed = False, adj = [[1, 2, 3], [0, 2], [0, 1], [0]]\<rparr>"

text \<open>
  Two directed graphs on nine vertices with the same adjacency sets: vertex 1 has the
  neighbours 0 and 8, which the set of the first graph iterates as 8, 0 and the set of
  the second as 0, 8.
\<close>

definition ties_a :: graph where
  "ties_a = \<lparr>gn = 9, directed = True, adj = [[], [8, 0], [], [], [], [], [], [], []]\<rparr>"

definition ties_b :: graph where
  "ties_b = \<lparr>gn = 9, directed = True, adj = [[], [0, 8], [], [], [], [], [], [], []]\<rparr>"

text \<open>A set that puts a new element last in its iteration order.\<close>

definition place_last :: "int \<Rightarrow> int list \<Rightarrow> int list" where
  "place_last x s = s @ [x]"

section \<open>Subscripts and neighbours\<close>

lemma py_get_in: "0 \<le> i \<Longrightarrow> i < int (length xs) \<Longrightarrow> py_get xs i = Inr (xs ! nat i)"
  by (simp add: py_get_def)

lemma py_set_in: "0 \<le> i \<Longrightarrow> i < int (length xs) \<Longrightarrow> py_set xs i v = Inr (xs[nat i := v])"
  by (simp add: py_set_def)

lemma py_get_set:
  assumes "py_get xs i = Inr a" "py_set xs i b = Inr ys"
  shows "py_set ys i a = Inr xs"
  using assms by (auto simp: py_get_def py_set_def Let_def split: if_splits)

lemma py_pop_snoc: "py_pop (xs @ [x]) = Inr xs"
  by (simp add: py_pop_def)

lemma wf_adj_get: "wf_graph g \<Longrightarrow> 0 \<le> u \<Longrightarrow> u < gn g \<Longrightarrow> py_get (adj g) u = Inr (adj g ! nat u)"
  by (simp add: wf_graph_def py_get_in)

lemma wf_adj_range:
  "wf_graph g \<Longrightarrow> 0 \<le> u \<Longrightarrow> u < gn g \<Longrightarrow> x \<in> set (adj g ! nat u) \<Longrightarrow> 0 \<le> x \<and> x < gn g"
proof -
  assume w: "wf_graph g" and u: "0 \<le> u" "u < gn g" and x: "x \<in> set (adj g ! nat u)"
  from w u have "nat u < length (adj g)" by (simp add: wf_graph_def)
  then have "adj g ! nat u \<in> set (adj g)" by simp
  with w x show ?thesis by (auto simp: wf_graph_def)
qed

lemma insort_key_cong_on:
  "f x = h x \<Longrightarrow> \<forall>y\<in>set ys. f y = h y \<Longrightarrow> insort_key f x ys = insort_key h x ys"
  by (induction ys) simp_all

lemma sort_key_cong_on:
  "\<forall>y\<in>set ys. f y = h y \<Longrightarrow> sort_key f ys = sort_key h ys"
proof (induction ys)
  case Nil
  show ?case by simp
next
  case (Cons y ys)
  then have "sort_key f ys = sort_key h ys" by simp
  moreover have "\<forall>z\<in>set (sort_key h ys). f z = h z" using Cons.prems by simp
  ultimately show ?case using Cons.prems insort_key_cong_on [of f y h "sort_key h ys"] by simp
qed

lemma wf_degree:
  "wf_graph g \<Longrightarrow> 0 \<le> x \<Longrightarrow> x < gn g \<Longrightarrow> degree g x = Inr (length (adj g ! nat x))"
  by (simp add: degree_def wf_adj_get)

lemma wf_neighbors:
  assumes "wf_graph g" "0 \<le> u" "u < gn g"
  shows "neighbors g u = Inr (sort_key (\<lambda>x. length (adj g ! nat x)) (adj g ! nat u))"
proof -
  have r: "\<forall>x\<in>set (adj g ! nat u). degree g x = Inr (length (adj g ! nat x))"
    using assms wf_adj_range wf_degree by blast
  then have "\<not> (\<exists>x\<in>set (adj g ! nat u). isl (degree g x))" by simp
  moreover have "sort_key (\<lambda>x. projr (degree g x)) (adj g ! nat u)
      = sort_key (\<lambda>x. length (adj g ! nat x)) (adj g ! nat u)"
    using r by (intro sort_key_cong_on) simp
  ultimately show ?thesis using assms by (simp add: neighbors_def wf_adj_get)
qed

lemma neighbors_out: "\<not> (0 \<le> u \<and> u < gn g) \<Longrightarrow> neighbors g u = Inr []"
  by (simp add: neighbors_def)

lemma wf_neighbors_ex:
  assumes "wf_graph g"
  shows "\<exists>ns. neighbors g u = Inr ns \<and> (\<forall>x\<in>set ns. 0 \<le> u \<and> u < gn g \<and> x \<in> set (adj g ! nat u))"
proof (cases "0 \<le> u \<and> u < gn g")
  case True
  then show ?thesis using wf_neighbors [OF assms, of u] by simp
next
  case False
  then show ?thesis using neighbors_out [of u g] by simp
qed


text \<open>\<open>neighbors\<close> reads \<open>n\<close> and \<open>adj\<close> only.\<close>

lemma neighbors_cong: "gn g = gn h \<Longrightarrow> adj g = adj h \<Longrightarrow> neighbors g u = neighbors h u"
proof -
  assume e: "gn g = gn h" "adj g = adj h"
  then have d: "degree g = degree h" by (intro ext) (simp add: degree_def)
  show ?thesis unfolding neighbors_def e d by (rule refl)
qed

section \<open>Edge insertion\<close>

lemma set_set_add: "set_order place \<Longrightarrow> set (set_add place s x) = insert x (set s)"
  by (auto simp: set_order_def set_add_def)

lemma distinct_set_add: "set_order place \<Longrightarrow> distinct s \<Longrightarrow> distinct (set_add place s x)"
  by (auto simp: set_order_def set_add_def)

lemma set_add_member: "x \<in> set s \<Longrightarrow> set_add place s x = s"
  by (simp add: set_add_def)

lemma add_edge_reject:
  "u = v \<or> \<not> (0 \<le> u \<and> u < gn g) \<or> \<not> (0 \<le> v \<and> v < gn g) \<Longrightarrow> add_edge place g u v = Inr g"
  by (auto simp: add_edge_def)

lemma add_edge_valid:
  assumes "length (adj g) = nat (gn g)" "u \<noteq> v" "0 \<le> u" "u < gn g" "0 \<le> v" "v < gn g"
  shows "add_edge place g u v =
     Inr (if directed g then g\<lparr>adj := (adj g)[nat u := set_add place (adj g ! nat u) v]\<rparr>
          else g\<lparr>adj := (adj g)[nat u := set_add place (adj g ! nat u) v,
                                nat v := set_add place (adj g ! nat v) u]\<rparr>)"
proof -
  have uv: "nat u \<noteq> nat v" using assms by simp
  have lu: "nat u < length (adj g)" and lv: "nat v < length (adj g)" using assms by simp_all
  have gu: "py_get (adj g) u = Inr (adj g ! nat u)" using assms by (simp add: py_get_in)
  have gv: "py_get ((adj g)[nat u := a]) v = Inr (adj g ! nat v)" for a
    using assms uv by (simp add: py_get_in)
  show ?thesis using assms gu gv by (simp add: add_edge_def Let_def)
qed

lemma add_edge_idem:
  assumes "set_order place" "add_edge place g u v = Inr g1"
  shows "add_edge place g1 u v = Inr g1"
proof (cases "u = v \<or> \<not> (0 \<le> u \<and> u < gn g) \<or> \<not> (0 \<le> v \<and> v < gn g)")
  case True
  then have "g1 = g" using assms(2) add_edge_reject [of u v g place] by simp
  then show ?thesis using True add_edge_reject [of u v g place] by simp
next
  case False
  then have v: "u \<noteq> v" "0 \<le> u" "u < gn g" "0 \<le> v" "v < gn g" by auto
  from assms(2) v have lu: "u < int (length (adj g))"
    by (auto simp: add_edge_def py_get_def Let_def split: if_splits sum.splits)
  have uv: "nat u \<noteq> nat v" using v by simp
  show ?thesis
  proof (cases "directed g")
    case True
    with assms(2) v lu have g1: "g1 = g\<lparr>adj := (adj g)[nat u := set_add place (adj g ! nat u) v]\<rparr>"
      by (auto simp: add_edge_def py_get_in Let_def)
    have m: "v \<in> set (set_add place (adj g ! nat u) v)"
      using assms(1) by (simp add: set_set_add)
    show ?thesis using v lu True m unfolding g1
      by (simp add: add_edge_def py_get_in Let_def set_add_member)
  next
    case False
    from assms(2) v False have lv: "v < int (length (adj g))"
      by (auto simp: add_edge_def py_get_def Let_def split: if_splits sum.splits)
    from assms(2) v lu lv False uv
    have g1: "g1 = g\<lparr>adj := (adj g)[nat u := set_add place (adj g ! nat u) v,
                                nat v := set_add place (adj g ! nat v) u]\<rparr>"
      by (auto simp: add_edge_def py_get_in Let_def)
    have m: "v \<in> set (set_add place (adj g ! nat u) v)" "u \<in> set (set_add place (adj g ! nat v) u)"
      using assms(1) by (simp_all add: set_set_add)
    have l1: "nat u < length (adj g)" "nat v < length (adj g)" using v lu lv by simp_all
    show ?thesis using v lu lv False m uv l1 unfolding g1
      by (simp add: add_edge_def py_get_in Let_def set_add_member list_update_swap [of "nat v" "nat u"])
  qed
qed

lemma add_edge_inv:
  assumes so: "set_order place" and inv: "adj_inv g"
  shows "\<exists>g'. add_edge place g u v = Inr g' \<and> adj_inv g' \<and> gn g' = gn g \<and> directed g' = directed g"
proof (cases "u = v \<or> \<not> (0 \<le> u \<and> u < gn g) \<or> \<not> (0 \<le> v \<and> v < gn g)")
  case True
  then show ?thesis using inv add_edge_reject [of u v g place] by simp
next
  case False
  then have v: "u \<noteq> v" "0 \<le> u" "u < gn g" "0 \<le> v" "v < gn g" by auto
  have len: "length (adj g) = nat (gn g)" using inv by (simp add: adj_inv_def)
  have uv: "nat u \<noteq> nat v" using v by simp
  have lu: "nat u < length (adj g)" and lv: "nat v < length (adj g)" using v len by simp_all
  note old = inv [unfolded adj_inv_def, THEN conjunct2, rule_format]
  let ?A = "set_add place (adj g ! nat u) v"
  let ?B = "set_add place (adj g ! nat v) u"
  have sA: "set ?A = insert v (set (adj g ! nat u))" and sB: "set ?B = insert u (set (adj g ! nat v))"
    using so by (simp_all add: set_set_add)
  have dA: "distinct ?A" and dB: "distinct ?B"
    using so old lu lv by (simp_all add: distinct_set_add)
  show ?thesis
  proof (cases "directed g")
    case True
    let ?g = "g\<lparr>adj := (adj g)[nat u := ?A]\<rparr>"
    have e: "add_edge place g u v = Inr ?g"
      using add_edge_valid [OF len v, of place] True by simp
    have "adj_inv ?g"
      unfolding adj_inv_def
    proof (intro conjI allI impI)
      show "length (adj ?g) = nat (gn ?g)" using len by simp
    next
      fix w assume w: "w < length (adj ?g)"
      then have w': "w < length (adj g)" by simp
      show "distinct (adj ?g ! w)" using old [OF w'] dA w' lu by (auto simp: nth_list_update)
      show "\<forall>x\<in>set (adj ?g ! w). 0 \<le> x \<and> x < gn ?g \<and> x \<noteq> int w \<and>
              (\<not> directed ?g \<longrightarrow> int w \<in> set (adj ?g ! nat x))"
        using old [OF w'] sA w' v True lu by (auto simp: nth_list_update split: if_splits)
    qed
    with e show ?thesis by simp
  next
    case False
    let ?g = "g\<lparr>adj := (adj g)[nat u := ?A, nat v := ?B]\<rparr>"
    have e: "add_edge place g u v = Inr ?g"
      using add_edge_valid [OF len v, of place] False by simp
    have nth: "(adj g)[nat u := ?A, nat v := ?B] ! w
        = (if w = nat v then ?B else if w = nat u then ?A else adj g ! w)"
      if "w < length (adj g)" for w
      using that by (simp add: nth_list_update)
    have "adj_inv ?g"
      unfolding adj_inv_def
    proof (intro conjI allI impI)
      show "length (adj ?g) = nat (gn ?g)" using len by simp
    next
      fix w assume w: "w < length (adj ?g)"
      then have w': "w < length (adj g)" by simp
      show "distinct (adj ?g ! w)" using old [OF w'] dA dB w' by (simp add: nth)
      show "\<forall>x\<in>set (adj ?g ! w). 0 \<le> x \<and> x < gn ?g \<and> x \<noteq> int w \<and>
              (\<not> directed ?g \<longrightarrow> int w \<in> set (adj ?g ! nat x))"
      proof
        fix x assume x: "x \<in> set (adj ?g ! w)"
        have xr: "0 \<le> x \<and> x < gn g \<and> x \<noteq> int w"
          using x old [OF w'] sA sB w' v uv by (auto simp: nth split: if_splits)
        then have lx: "nat x < length (adj g)" using len by simp
        have "int w \<in> set (adj ?g ! nat x)"
        proof (cases "x \<in> set (adj g ! w)")
          case True
          then have "int w \<in> set (adj g ! nat x)" using old [OF w'] False by simp
          then show ?thesis using sA sB lx by (auto simp: nth)
        next
          case False
          then have "(w = nat v \<and> x = u) \<or> (w = nat u \<and> x = v)"
            using x sA sB w' by (auto simp: nth split: if_splits)
          then show ?thesis using sA sB lx v uv by (auto simp: nth)
        qed
        with xr show "0 \<le> x \<and> x < gn ?g \<and> x \<noteq> int w \<and>
              (\<not> directed ?g \<longrightarrow> int w \<in> set (adj ?g ! nat x))" by simp
      qed
    qed
    with e show ?thesis by simp
  qed
qed

lemma Graph_init_inv: "adj_inv (Graph_init k d)"
  by (simp add: adj_inv_def Graph_init_def)

lemma add_edges_inv:
  "set_order place \<Longrightarrow> adj_inv g \<Longrightarrow>
   \<exists>g'. add_edges place g es = Inr g' \<and> adj_inv g' \<and> gn g' = gn g \<and> directed g' = directed g"
proof (induction es arbitrary: g)
  case Nil
  then show ?case by simp
next
  case (Cons e es)
  obtain u v where e: "e = (u, v)" by (cases e)
  from add_edge_inv [OF Cons.prems, of u v] obtain g1 where
    g1: "add_edge place g u v = Inr g1" "adj_inv g1" "gn g1 = gn g" "directed g1 = directed g"
    by blast
  from Cons.IH [OF Cons.prems(1) g1(2)] g1 e show ?case by auto
qed

lemma adj_inv_wf: "adj_inv g \<Longrightarrow> wf_graph g"
proof -
  assume a: "adj_inv g"
  have "0 \<le> x \<and> x < gn g" if "s \<in> set (adj g)" "x \<in> set s" for s x
  proof -
    from that(1) obtain i where "i < length (adj g)" "s = adj g ! i"
      by (auto simp: in_set_conv_nth)
    with a that(2) show ?thesis by (simp add: adj_inv_def)
  qed
  with a show ?thesis by (auto simp: adj_inv_def wf_graph_def)
qed

text \<open>Every graph that the constructor and \<open>add_edge\<close> can produce is well formed.\<close>

lemma constructed_wf:
  "set_order place \<Longrightarrow> add_edges place (Graph_init k d) es = Inr g \<Longrightarrow> wf_graph g"
  using add_edges_inv [OF _ Graph_init_inv, of place k d es] adj_inv_wf [of g] by auto

section \<open>The validator\<close>

lemma set_py_range: "set (py_range k) = {0..<k}"
  by (auto simp: py_range_def)

lemma check_edges_iff:
  assumes "wf_graph g"
  shows "check_edges g p js =
     Inr (\<forall>i\<in>set js. 0 \<le> p ! i \<and> p ! i < gn g \<and> p ! Suc i \<in> set (adj g ! nat (p ! i)))"
proof (induction js)
  case Nil
  show ?case by simp
next
  case (Cons j js)
  show ?case
  proof (cases "0 \<le> p ! j \<and> p ! j < gn g")
    case True
    then show ?thesis using Cons wf_neighbors [OF assms, of "p ! j"] by (simp add: Let_def)
  next
    case False
    then show ?thesis using Cons neighbors_out [of "p ! j" g] by (auto simp: Let_def)
  qed
qed

lemma is_hamiltonian_path_iff:
  assumes "wf_graph g"
  shows "is_hamiltonian_path g p = Inr (hamiltonian g p)"
proof (cases "int (length p) = gn g \<and> set p = {0..<gn g}")
  case False
  then show ?thesis by (auto simp: is_hamiltonian_path_def hamiltonian_def Let_def set_py_range)
next
  case True
  then have r: "0 \<le> p ! i \<and> p ! i < gn g" if "i < length p" for i
    using that nth_mem [of i p] by auto
  have "(\<forall>i\<in>set [0..<length p - 1]. 0 \<le> p ! i \<and> p ! i < gn g \<and> p ! Suc i \<in> set (adj g ! nat (p ! i)))
      = (\<forall>i\<in>{0..<length p - 1}. p ! Suc i \<in> set (adj g ! nat (p ! i)))"
    using r by auto
  then show ?thesis using True
    by (simp add: is_hamiltonian_path_def hamiltonian_def Let_def set_py_range check_edges_iff [OF assms])
qed


section \<open>The search leaves its arguments as it found them\<close>

lemma py_pop_Inr: "py_pop xs = Inr ys \<Longrightarrow> ys = butlast xs"
  by (auto simp: py_pop_def split: if_splits)

lemma py_set_restore:
  "py_get xs i = Inr False \<Longrightarrow> py_set xs i True = Inr ys \<Longrightarrow> py_set ys i False = Inr zs \<Longrightarrow> zs = xs"
  by (auto simp: py_get_def py_set_def Let_def list_update_same_conv split: if_splits)

lemma backtrack_frame:
  "backtrack d g c p v = Inr (r, g', p', v') \<Longrightarrow> g' = g \<and> (r = None \<longrightarrow> p' = p \<and> v' = v)"
  "backtrack_loop d ns g p v = Inr (r, g', p', v') \<Longrightarrow> g' = g \<and> (r = None \<longrightarrow> p' = p \<and> v' = v)"
proof (induction d g c p v and d ns g p v arbitrary: r g' p' v' and r g' p' v'
       rule: backtrack_backtrack_loop.induct)
  case (1 g current path visited)
  then show ?case by simp
next
  case (2 d g current path visited)
  then show ?case by (auto split: if_splits sum.splits)
next
  case (3 d g path visited)
  then show ?case by simp
next
  case (4 d neighbor rest g path visited)
  show ?case
  proof (cases "py_get visited neighbor")
    case (Inl e)
    with "4.prems" show ?thesis by simp
  next
    case (Inr seen)
    show ?thesis
    proof (cases seen)
      case True
      with Inr "4.prems" have "backtrack_loop d rest g path visited = Inr (r, g', p', v')" by simp
      from "4.IH"(3) [OF Inr _ this] True show ?thesis by simp
    next
      case False
      show ?thesis
      proof (cases "py_set visited neighbor True")
        case (Inl e)
        with Inr False "4.prems" show ?thesis by simp
      next
        case v1: (Inr visited1)
        show ?thesis
        proof (cases "backtrack d g neighbor (path @ [neighbor]) visited1")
          case (Inl e)
          with Inr False v1 "4.prems" show ?thesis by simp
        next
          case rec: (Inr res)
          obtain r2 g2 path2 visited2 where res: "res = (r2, g2, path2, visited2)"
            by (cases res) auto
          have f1: "g2 = g \<and> (r2 = None \<longrightarrow> path2 = path @ [neighbor] \<and> visited2 = visited1)"
            using "4.IH"(1) [OF Inr _ v1, of r2 g2 path2 visited2] False rec res by simp
          show ?thesis
          proof (cases r2)
            case (Some result)
            with Inr False v1 rec res "4.prems" f1 show ?thesis by auto
          next
            case None
            with f1 have st: "g2 = g" "path2 = path @ [neighbor]" "visited2 = visited1" by simp_all
            show ?thesis
            proof (cases "py_pop path2")
              case (Inl e)
              with Inr False v1 rec res None "4.prems" show ?thesis by simp
            next
              case p3: (Inr path3)
              then have path3: "path3 = path" using st py_pop_Inr by fastforce
              show ?thesis
              proof (cases "py_set visited2 neighbor False")
                case (Inl e)
                with Inr False v1 rec res None p3 "4.prems" show ?thesis by simp
              next
                case v3: (Inr visited3)
                have visited3: "visited3 = visited"
                  using py_set_restore [of visited neighbor visited1 visited3] Inr False v1 v3 st
                  by simp
                have "backtrack_loop d rest g2 path3 visited3 = Inr (r, g', p', v')"
                  using Inr False v1 rec res None p3 v3 "4.prems" by simp
                from "4.IH"(2) [OF Inr _ v1 rec res [symmetric] None refl refl p3 v3 this] False
                show ?thesis using st path3 visited3 by simp
              qed
            qed
          qed
        qed
      qed
    qed
  qed
qed

lemma find_loop_frame: "find_loop d k starts g = Inr (r, g') \<Longrightarrow> g' = g"
proof (induction starts arbitrary: g)
  case Nil
  then show ?case by simp
next
  case (Cons start rest)
  from Cons.prems obtain visited where v: "py_set (replicate (nat k) False) start True = Inr visited"
    by (cases "py_set (replicate (nat k) False) start True") auto
  from Cons.prems v obtain r2 g2 p2 v2 where
    b: "backtrack d g start ([] @ [start]) visited = Inr (r2, g2, p2, v2)"
    by (cases "backtrack d g start ([] @ [start]) visited") auto
  from backtrack_frame(1) [OF b] have g2: "g2 = g" by simp
  show ?case
  proof (cases r2)
    case None
    with Cons.prems v b have "find_loop d k rest g2 = Inr (r, g')" by simp
    from Cons.IH [OF this] g2 show ?thesis by simp
  next
    case (Some res)
    with Cons.prems v b g2 show ?thesis by simp
  qed
qed

section \<open>Hamiltonian paths and search states\<close>

lemma successively_nth:
  "successively P xs \<longleftrightarrow> (\<forall>i. Suc i < length xs \<longrightarrow> P (xs ! i) (xs ! Suc i))"
proof (induction P xs rule: successively.induct)
  case (3 P x y xs)
  show ?case
  proof
    assume a: "successively P (x # y # xs)"
    show "\<forall>i. Suc i < length (x # y # xs) \<longrightarrow> P ((x # y # xs) ! i) ((x # y # xs) ! Suc i)"
    proof (intro allI impI)
      fix i assume "Suc i < length (x # y # xs)"
      then show "P ((x # y # xs) ! i) ((x # y # xs) ! Suc i)"
        using a 3 by (cases i) auto
    qed
  next
    assume a: "\<forall>i. Suc i < length (x # y # xs) \<longrightarrow> P ((x # y # xs) ! i) ((x # y # xs) ! Suc i)"
    from a [rule_format, of 0] have "P x y" by simp
    moreover have "\<forall>i. Suc i < length (y # xs) \<longrightarrow> P ((y # xs) ! i) ((y # xs) ! Suc i)"
      using a [rule_format, of "Suc i" for i] by simp
    ultimately show "successively P (x # y # xs)" using 3 by simp
  qed
qed simp_all

lemma hamiltonian_walk:
  "hamiltonian g p \<longleftrightarrow> int (length p) = gn g \<and> set p = {0..<gn g} \<and> walk g p"
proof -
  have "(\<forall>i\<in>{0..<length p - 1}. p ! Suc i \<in> set (adj g ! nat (p ! i)))
      = (\<forall>i. Suc i < length p \<longrightarrow> p ! Suc i \<in> set (adj g ! nat (p ! i)))"
    by (auto simp: less_diff_conv)
  then show ?thesis by (simp add: hamiltonian_def walk_def successively_nth)
qed

lemma hamiltonian_distinct: "hamiltonian g p \<Longrightarrow> distinct p"
proof -
  assume h: "hamiltonian g p"
  then have "card (set p) = nat (gn g)" by (simp add: hamiltonian_def)
  moreover have "length p = nat (gn g)" using h by (auto simp: hamiltonian_def)
  ultimately show ?thesis by (simp add: card_distinct)
qed

lemma walk_snoc: "p \<noteq> [] \<Longrightarrow> walk g (p @ [x]) \<longleftrightarrow> walk g p \<and> x \<in> set (adj g ! nat (last p))"
  by (simp add: walk_def successively_append_iff)

lemma walk_append_Cons: "p \<noteq> [] \<Longrightarrow> walk g (p @ x # q) \<Longrightarrow> x \<in> set (adj g ! nat (last p))"
  by (simp add: walk_def successively_append_iff)

lemma consistent_full:
  assumes "consistent g p v" "int (length p) = gn g"
  shows "set p = {0..<gn g}"
proof -
  have sub: "set p \<subseteq> {0..<gn g}" using assms(1) by (auto simp: consistent_def)
  have "card (set p) = length p" using assms(1) by (simp add: consistent_def distinct_card)
  also have "\<dots> = card {0..<gn g}" using assms(2) by simp
  finally show ?thesis using sub by (simp add: card_subset_eq)
qed

lemma consistent_get:
  assumes "consistent g p v" "0 \<le> x" "x < gn g"
  shows "py_get v x = Inr (x \<in> set p)" "py_set v x b = Inr (v[nat x := b])"
proof -
  have l: "x < int (length v)" using assms by (simp add: consistent_def)
  then have "nat x < length v" using assms(2) by simp
  then have "v ! nat x \<longleftrightarrow> x \<in> set p" using assms by (simp add: consistent_def)
  then show "py_get v x = Inr (x \<in> set p)" using l assms(2) by (simp add: py_get_in)
  show "py_set v x b = Inr (v[nat x := b])" using l assms(2) by (simp add: py_set_in)
qed

lemma consistent_extend:
  assumes c: "consistent g p v" and x: "0 \<le> x" "x < gn g" "x \<notin> set p"
  shows "consistent g (p @ [x]) (v[nat x := True])" "length p < nat (gn g)"
proof -
  have len: "length v = nat (gn g)" and d: "distinct p"
    and r: "\<forall>y\<in>set p. 0 \<le> y \<and> y < gn g"
    and m: "\<forall>i<length v. v ! i \<longleftrightarrow> int i \<in> set p"
    using c by (simp_all add: consistent_def)
  have "\<forall>i<length v. (v[nat x := True]) ! i \<longleftrightarrow> int i \<in> set (p @ [x])"
  proof (intro allI impI)
    fix i assume i: "i < length v"
    show "(v[nat x := True]) ! i \<longleftrightarrow> int i \<in> set (p @ [x])"
    proof (cases "i = nat x")
      case True
      then show ?thesis using i x by simp
    next
      case False
      then have "int i \<noteq> x" using x by auto
      then show ?thesis using False i m by simp
    qed
  qed
  then show "consistent g (p @ [x]) (v[nat x := True])"
    using len d r x by (simp add: consistent_def)
  have "set p \<subset> {0..<gn g}" using r x by auto
  then have "card (set p) < card {0..<gn g}"
    using psubset_card_mono [of "{0..<gn g}" "set p"] by simp
  then show "length p < nat (gn g)" using d by (simp add: distinct_card)
qed

lemma loop_step:
  assumes c: "consistent g p v" and x: "0 \<le> x" "x < gn g"
  shows "backtrack_loop d (x # rest) g p v =
     (if x \<in> set p then backtrack_loop d rest g p v
      else case backtrack d g x (p @ [x]) (v[nat x := True]) of
             Inl e \<Rightarrow> Inl e
           | Inr (r2, s2) \<Rightarrow>
               (case r2 of Some res \<Rightarrow> Inr (Some res, s2)
                         | None \<Rightarrow> backtrack_loop d rest g p v))"
proof (cases "x \<in> set p")
  case True
  then show ?thesis using consistent_get [OF c x] by simp
next
  case False
  note g = consistent_get [OF c x]
  have restore: "py_set (v[nat x := True]) x False = Inr v"
    using py_get_set [of v x False True "v[nat x := True]"] g False by simp
  show ?thesis
  proof (cases "backtrack d g x (p @ [x]) (v[nat x := True])")
    case (Inl e)
    then show ?thesis using g False by simp
  next
    case (Inr res)
    obtain r2 g2 p2 v2 where res: "res = (r2, g2, p2, v2)" by (cases res) auto
    show ?thesis
    proof (cases r2)
      case (Some a)
      then show ?thesis using g False Inr res by simp
    next
      case None
      with backtrack_frame(1) [of d g x "p @ [x]" "v[nat x := True]" r2 g2 p2 v2] Inr res
      have "g2 = g" "p2 = p @ [x]" "v2 = v[nat x := True]" by simp_all
      then show ?thesis using g False Inr res None restore by (simp add: py_pop_snoc)
    qed
  qed
qed

section \<open>The recursive extension\<close>

lemma wf_neighbors_range:
  assumes "wf_graph g"
  shows "\<exists>ns. neighbors g c = Inr ns \<and> (\<forall>x\<in>set ns. 0 \<le> x \<and> x < gn g)"
proof -
  from wf_neighbors_ex [OF assms, of c] obtain ns where
    ns: "neighbors g c = Inr ns" "\<forall>x\<in>set ns. 0 \<le> c \<and> c < gn g \<and> x \<in> set (adj g ! nat c)"
    by blast
  then have "\<forall>x\<in>set ns. 0 \<le> x \<and> x < gn g" using wf_adj_range [OF assms] by blast
  with ns(1) show ?thesis by blast
qed

lemma backtrack_returns:
  "wf_graph g \<Longrightarrow> consistent g p v \<Longrightarrow> nat (gn g) - length p < d \<Longrightarrow>
   \<exists>r p' v'. backtrack d g c p v = Inr (r, g, p', v')"
proof (induction d arbitrary: c p v)
  case 0
  then show ?case by simp
next
  case (Suc d)
  have loop: "\<exists>r p' v'. backtrack_loop d ns g p v = Inr (r, g, p', v')"
    if "\<forall>x\<in>set ns. 0 \<le> x \<and> x < gn g" for ns
    using that
  proof (induction ns)
    case Nil
    show ?case by simp
  next
    case (Cons x rest)
    then have x: "0 \<le> x" "x < gn g" and rest: "\<forall>y\<in>set rest. 0 \<le> y \<and> y < gn g" by simp_all
    note step = loop_step [OF Suc.prems(2) x, of d rest]
    show ?case
    proof (cases "x \<in> set p")
      case True
      then show ?thesis using step Cons.IH [OF rest] by simp
    next
      case False
      note ext = consistent_extend [OF Suc.prems(2) x False]
      have "nat (gn g) - length (p @ [x]) < d" using ext(2) Suc.prems(3) by simp
      from Suc.IH [OF Suc.prems(1) ext(1) this, of x] obtain r2 p2 v2 where
        b: "backtrack d g x (p @ [x]) (v[nat x := True]) = Inr (r2, g, p2, v2)" by blast
      show ?thesis
      proof (cases r2)
        case None
        then show ?thesis using step False b Cons.IH [OF rest] by simp
      next
        case (Some res)
        then show ?thesis using step False b by simp
      qed
    qed
  qed
  show ?case
  proof (cases "int (length p) = gn g")
    case True
    then show ?thesis by simp
  next
    case False
    from wf_neighbors_range [OF Suc.prems(1), of c] obtain ns where
      ns: "neighbors g c = Inr ns" "\<forall>x\<in>set ns. 0 \<le> x \<and> x < gn g" by blast
    from loop [OF ns(2)] ns(1) False show ?thesis by simp
  qed
qed

lemma backtrack_correct:
  "wf_graph g \<Longrightarrow> consistent g p v \<Longrightarrow> p \<noteq> [] \<Longrightarrow> last p = c \<Longrightarrow> walk g p \<Longrightarrow>
   backtrack d g c p v = Inr (r, s) \<Longrightarrow>
   (r = None \<longrightarrow> (\<forall>q. \<not> hamiltonian g (p @ q))) \<and>
   (\<forall>res. r = Some res \<longrightarrow> hamiltonian g res \<and> (\<exists>q. res = p @ q))"
proof (induction d arbitrary: c p v r s)
  case 0
  then show ?case by simp
next
  case (Suc d)
  note wf = Suc.prems(1) and con = Suc.prems(2) and ne = Suc.prems(3)
    and lst = Suc.prems(4) and wk = Suc.prems(5)
  have c: "0 \<le> c" "c < gn g" using con ne lst last_in_set [of p] by (auto simp: consistent_def)
  have loop: "(r = None \<longrightarrow> (\<forall>x\<in>set ns. \<forall>q. \<not> hamiltonian g (p @ x # q))) \<and>
              (\<forall>res. r = Some res \<longrightarrow> hamiltonian g res \<and> (\<exists>q. res = p @ q))"
    if "set ns \<subseteq> set (adj g ! nat c)" "backtrack_loop d ns g p v = Inr (r, s)" for ns r s
    using that
  proof (induction ns)
    case Nil
    then show ?case by simp
  next
    case (Cons x rest)
    then have xa: "x \<in> set (adj g ! nat c)" and rest: "set rest \<subseteq> set (adj g ! nat c)" by simp_all
    have x: "0 \<le> x" "x < gn g" using wf_adj_range [OF wf c xa] by simp_all
    note step = loop_step [OF con x, of d rest]
    show ?case
    proof (cases "x \<in> set p")
      case True
      then have "\<not> hamiltonian g (p @ x # q)" for q
        using hamiltonian_distinct [of g "p @ x # q"] by auto
      moreover have "backtrack_loop d rest g p v = Inr (r, s)"
        using Cons.prems(2) step True by simp
      ultimately show ?thesis using Cons.IH [OF rest] by simp
    next
      case False
      note ext = consistent_extend [OF con x False]
      have wk': "walk g (p @ [x])" using wk xa ne lst by (simp add: walk_snoc)
      show ?thesis
      proof (cases "backtrack d g x (p @ [x]) (v[nat x := True])")
        case (Inl e)
        then show ?thesis using Cons.prems(2) step False by simp
      next
        case (Inr res)
        obtain r2 s2 where res: "res = (r2, s2)" by (cases res)
        from Suc.IH [OF wf ext(1) _ _ wk', of x r2 s2] Inr res
        have ih: "(r2 = None \<longrightarrow> (\<forall>q. \<not> hamiltonian g ((p @ [x]) @ q))) \<and>
                  (\<forall>res. r2 = Some res \<longrightarrow> hamiltonian g res \<and> (\<exists>q. res = (p @ [x]) @ q))"
          by simp
        show ?thesis
        proof (cases r2)
          case None
          then have "backtrack_loop d rest g p v = Inr (r, s)"
            using Cons.prems(2) step False Inr res by simp
          from Cons.IH [OF rest this] ih None show ?thesis by simp
        next
          case (Some path)
          then have "r = Some path" using Cons.prems(2) step False Inr res by simp
          with ih Some show ?thesis by auto
        qed
      qed
    qed
  qed
  show ?case
  proof (cases "int (length p) = gn g")
    case True
    then have r: "r = Some p" using Suc.prems(6) by simp
    have "hamiltonian g p"
      using True consistent_full [OF con True] wk by (simp add: hamiltonian_walk)
    with r show ?thesis by simp
  next
    case False
    have "neighbors g c = Inr (sort_key (\<lambda>x. length (adj g ! nat x)) (adj g ! nat c))"
      using wf_neighbors [OF wf c] .
    then obtain ns where ns: "neighbors g c = Inr ns" "set ns = set (adj g ! nat c)" by simp
    then have l: "backtrack_loop d ns g p v = Inr (r, s)" using Suc.prems(6) False by simp
    from loop [OF _ l] ns(2)
    have res: "(r = None \<longrightarrow> (\<forall>x\<in>set (adj g ! nat c). \<forall>q. \<not> hamiltonian g (p @ x # q)))"
      "\<forall>res. r = Some res \<longrightarrow> hamiltonian g res \<and> (\<exists>q. res = p @ q)" by simp_all
    have "\<not> hamiltonian g (p @ q)" if "r = None" for q
    proof (cases q)
      case Nil
      then show ?thesis using False by (simp add: hamiltonian_def)
    next
      case (Cons x q')
      show ?thesis
      proof
        assume h: "hamiltonian g (p @ q)"
        then have "walk g (p @ x # q')" using Cons by (simp add: hamiltonian_walk)
        then have "x \<in> set (adj g ! nat c)" using walk_append_Cons [OF ne] lst by simp
        with res(1) that h Cons show False by simp
      qed
    qed
    with res(2) show ?thesis by simp
  qed
qed

section \<open>The loop over start vertices\<close>

lemma start_state:
  assumes "0 \<le> s" "s < gn g"
  shows "py_set (replicate (nat (gn g)) False) s True
           = Inr ((replicate (nat (gn g)) False)[nat s := True])"
    and "consistent g [s] ((replicate (nat (gn g)) False)[nat s := True])"
proof -
  show "py_set (replicate (nat (gn g)) False) s True
           = Inr ((replicate (nat (gn g)) False)[nat s := True])"
    using assms by (simp add: py_set_in)
  have "\<forall>i<nat (gn g). (replicate (nat (gn g)) False)[nat s := True] ! i \<longleftrightarrow> int i = s"
  proof (intro allI impI)
    fix i assume i: "i < nat (gn g)"
    show "(replicate (nat (gn g)) False)[nat s := True] ! i \<longleftrightarrow> int i = s"
      using i assms by (cases "i = nat s") auto
  qed
  then show "consistent g [s] ((replicate (nat (gn g)) False)[nat s := True])"
    using assms by (simp add: consistent_def)
qed

lemma find_loop_step:
  assumes "0 \<le> s" "s < gn g"
  shows "find_loop d (gn g) (s # rest) g =
     (case backtrack d g s [s] ((replicate (nat (gn g)) False)[nat s := True]) of
        Inl e \<Rightarrow> Inl e
      | Inr (r2, g2, s2) \<Rightarrow>
          (case r2 of Some res \<Rightarrow> Inr (Some res, g2) | None \<Rightarrow> find_loop d (gn g) rest g))"
proof (cases "backtrack d g s [s] ((replicate (nat (gn g)) False)[nat s := True])")
  case (Inl e)
  then show ?thesis using start_state(1) [OF assms] by simp
next
  case (Inr res)
  obtain r2 g2 p2 v2 where res: "res = (r2, g2, p2, v2)" by (cases res) auto
  with Inr backtrack_frame(1) [of d g s "[s]" _ r2 g2 p2 v2] have "g2 = g" by simp
  then show ?thesis using start_state(1) [OF assms] Inr res by (cases r2) simp_all
qed

lemma find_loop_returns:
  assumes wf: "wf_graph g" and d: "nat (gn g) \<le> d"
  shows "\<forall>s\<in>set starts. 0 \<le> s \<and> s < gn g \<Longrightarrow> \<exists>r. find_loop d (gn g) starts g = Inr (r, g)"
proof (induction starts)
  case Nil
  show ?case by simp
next
  case (Cons s rest)
  then have s: "0 \<le> s" "s < gn g" and rest: "\<forall>t\<in>set rest. 0 \<le> t \<and> t < gn g" by simp_all
  have "nat (gn g) - length [s] < d" using s d by simp
  from backtrack_returns [OF wf start_state(2) [OF s] this, of s] obtain r2 p2 v2 where
    b: "backtrack d g s [s] ((replicate (nat (gn g)) False)[nat s := True]) = Inr (r2, g, p2, v2)"
    by blast
  show ?case using find_loop_step [OF s, of d rest] b Cons.IH [OF rest] by (cases r2) simp_all
qed

lemma find_loop_correct:
  assumes wf: "wf_graph g"
  shows "\<forall>s\<in>set starts. 0 \<le> s \<and> s < gn g \<Longrightarrow> find_loop d (gn g) starts g = Inr (r, g') \<Longrightarrow>
     (r = None \<longrightarrow> (\<forall>s\<in>set starts. \<forall>q. \<not> hamiltonian g (s # q))) \<and>
     (\<forall>res. r = Some res \<longrightarrow> hamiltonian g res \<and>
        (\<exists>pre s post q. starts = pre @ s # post \<and> res = s # q \<and>
           (\<forall>t\<in>set pre. \<forall>q. \<not> hamiltonian g (t # q))))"
proof (induction starts)
  case Nil
  then show ?case by simp
next
  case (Cons s rest)
  then have s: "0 \<le> s" "s < gn g" and rest: "\<forall>t\<in>set rest. 0 \<le> t \<and> t < gn g" by simp_all
  note step = find_loop_step [OF s, of d rest]
  show ?case
  proof (cases "backtrack d g s [s] ((replicate (nat (gn g)) False)[nat s := True])")
    case (Inl e)
    then show ?thesis using Cons.prems(2) step by simp
  next
    case (Inr res)
    obtain r2 s2 where res: "res = (r2, s2)" by (cases res)
    have wk: "walk g [s]" by (simp add: walk_def)
    from backtrack_correct [OF wf start_state(2) [OF s] _ _ wk, of s d r2 s2] Inr res
    have bc: "(r2 = None \<longrightarrow> (\<forall>q. \<not> hamiltonian g ([s] @ q)))"
      "\<forall>path. r2 = Some path \<longrightarrow> hamiltonian g path \<and> (\<exists>q. path = [s] @ q)" by simp_all
    show ?thesis
    proof (cases r2)
      case None
      obtain g2 p2 v2 where s2: "s2 = (g2, p2, v2)" by (cases s2)
      have fl: "find_loop d (gn g) rest g = Inr (r, g')"
        using Cons.prems(2) step Inr res None s2 by simp
      note ih = Cons.IH [OF rest fl]
      have no: "\<forall>q. \<not> hamiltonian g (s # q)" using bc(1) None by simp
      show ?thesis
      proof (intro conjI impI allI)
        assume "r = None"
        with ih no show "\<forall>s\<in>set (s # rest). \<forall>q. \<not> hamiltonian g (s # q)" by simp
      next
        fix path assume r: "r = Some path"
        with ih show "hamiltonian g path" by simp
        from ih r obtain pre t post q where
          p: "rest = pre @ t # post" "path = t # q" "\<forall>u\<in>set pre. \<forall>q. \<not> hamiltonian g (u # q)"
          by blast
        have "s # rest = (s # pre) @ t # post \<and> path = t # q \<and>
              (\<forall>u\<in>set (s # pre). \<forall>q. \<not> hamiltonian g (u # q))"
          using p no by simp
        then show "\<exists>pre sa post q. s # rest = pre @ sa # post \<and> path = sa # q \<and>
              (\<forall>t\<in>set pre. \<forall>q. \<not> hamiltonian g (t # q))" by blast
      qed
    next
      case (Some path)
      obtain g2 p2 v2 where s2: "s2 = (g2, p2, v2)" by (cases s2)
      have r: "r = Some path" using Cons.prems(2) step Inr res Some s2 by simp
      from bc(2) Some obtain q where q: "hamiltonian g path" "path = s # q" by auto
      have "s # rest = [] @ s # rest \<and> path = s # q \<and>
            (\<forall>u\<in>set ([]::int list). \<forall>q. \<not> hamiltonian g (u # q))"
        using q by simp
      then have "\<exists>pre sa post q. s # rest = pre @ sa # post \<and> path = sa # q \<and>
              (\<forall>t\<in>set pre. \<forall>q. \<not> hamiltonian g (t # q))" by blast
      with r q(1) show ?thesis by simp
    qed
  qed
qed

lemma py_range_bounds: "\<forall>s\<in>set (py_range k). 0 \<le> s \<and> s < k"
  by (simp add: set_py_range)

lemma hamiltonian_small:
  "gn g = 0 \<Longrightarrow> hamiltonian g []" "gn g = 1 \<Longrightarrow> hamiltonian g [0]"
  by (auto simp: hamiltonian_def)

lemma find_sound:
  assumes wf: "wf_graph g" and f: "find_hamiltonian_path d g = Inr (Some p, g')"
  shows "hamiltonian g p"
proof (cases "gn g = 0 \<or> gn g = 1")
  case True
  then show ?thesis using f hamiltonian_small [of g]
    by (auto simp: find_hamiltonian_path_def Let_def)
next
  case False
  then have "find_loop d (gn g) (py_range (gn g)) g = Inr (Some p, g')"
    using f by (simp add: find_hamiltonian_path_def Let_def)
  from find_loop_correct [OF wf py_range_bounds this] show ?thesis by simp
qed

lemma find_complete:
  assumes wf: "wf_graph g" and d: "nat (gn g) \<le> d"
  shows "\<exists>r. find_hamiltonian_path d g = Inr (r, g) \<and> (r = None \<longleftrightarrow> \<not> (\<exists>p. hamiltonian g p))"
proof (cases "gn g = 0 \<or> gn g = 1")
  case True
  then show ?thesis using hamiltonian_small [of g]
    by (auto simp: find_hamiltonian_path_def Let_def)
next
  case False
  from find_loop_returns [OF wf d py_range_bounds] obtain r where
    r: "find_loop d (gn g) (py_range (gn g)) g = Inr (r, g)" by blast
  then have f: "find_hamiltonian_path d g = Inr (r, g)"
    using False by (simp add: find_hamiltonian_path_def Let_def)
  note c = find_loop_correct [OF wf py_range_bounds r]
  have "r = None \<longleftrightarrow> \<not> (\<exists>p. hamiltonian g p)"
  proof
    assume n: "r = None"
    show "\<not> (\<exists>p. hamiltonian g p)"
    proof
      assume "\<exists>p. hamiltonian g p"
      then obtain p where p: "hamiltonian g p" ..
      then have "p \<noteq> []" using False by (auto simp: hamiltonian_def)
      then obtain s q where sq: "p = s # q" by (cases p) auto
      then have "s \<in> set (py_range (gn g))" using p by (auto simp: hamiltonian_def set_py_range)
      with c n p sq show False by blast
    qed
  next
    assume "\<not> (\<exists>p. hamiltonian g p)"
    with c show "r = None" by (cases r) auto
  qed
  with f show ?thesis by blast
qed

lemma find_minimal:
  assumes wf: "wf_graph g" and k: "2 \<le> gn g"
    and f: "find_hamiltonian_path d g = Inr (Some p, g')" and h: "hamiltonian g q"
  shows "p \<noteq> [] \<and> q \<noteq> [] \<and> hd p \<le> hd q"
proof -
  have "find_loop d (gn g) (py_range (gn g)) g = Inr (Some p, g')"
    using f k by (simp add: find_hamiltonian_path_def Let_def)
  from find_loop_correct [OF wf py_range_bounds this] obtain pre s post p' where
    c: "py_range (gn g) = pre @ s # post" "p = s # p'"
       "\<forall>t\<in>set pre. \<forall>q. \<not> hamiltonian g (t # q)" by blast
  have "q \<noteq> []" using h k by (auto simp: hamiltonian_def)
  then obtain t q' where tq: "q = t # q'" by (cases q) auto
  then have "t \<in> set (py_range (gn g))" using h by (auto simp: hamiltonian_def set_py_range)
  moreover have "t \<notin> set pre" using c(3) h tq by blast
  ultimately have "t = s \<or> t \<in> set post" using c(1) by auto
  moreover have "sorted (pre @ s # post)" using c(1) [symmetric] by (simp add: py_range_def)
  then have "\<forall>y\<in>set post. s \<le> y" by (simp add: sorted_append)
  ultimately have "s \<le> t" by auto
  then show ?thesis using c(2) tq by simp
qed

section \<open>Claims about the graph\<close>

text \<open>
  C5 (amended). For a vertex \<open>u\<close> of the graph, \<open>neighbors\<close> returns the members of
  \<open>adj[u]\<close>, each once, in ascending order of the size of the neighbour's own adjacency
  set; neighbours of equal size keep the order in which the set \<open>adj[u]\<close> iterates. The
  result is determined by \<open>n\<close> and by the adjacency sets together with their iteration
  orders. For \<open>u\<close> outside \<open>[0, n)\<close> it returns the empty list.
\<close>

theorem neighbors_ordered:
  "(wf_graph g \<and> 0 \<le> u \<and> u < gn g \<longrightarrow>
      (\<exists>ns. neighbors g u = Inr ns \<and> mset ns = mset (adj g ! nat u) \<and>
         sorted (map (\<lambda>x. length (adj g ! nat x)) ns) \<and>
         (\<forall>k. filter (\<lambda>x. length (adj g ! nat x) = k) ns
               = filter (\<lambda>x. length (adj g ! nat x) = k) (adj g ! nat u)))) \<and>
   (\<not> (0 \<le> u \<and> u < gn g) \<longrightarrow> neighbors g u = Inr []) \<and>
   (gn h = gn g \<and> adj h = adj g \<longrightarrow> neighbors h u = neighbors g u)"
proof (intro conjI impI)
  assume h: "wf_graph g \<and> 0 \<le> u \<and> u < gn g"
  then have "neighbors g u = Inr (sort_key (\<lambda>x. length (adj g ! nat x)) (adj g ! nat u))"
    by (simp add: wf_neighbors)
  then show "\<exists>ns. neighbors g u = Inr ns \<and> mset ns = mset (adj g ! nat u) \<and>
         sorted (map (\<lambda>x. length (adj g ! nat x)) ns) \<and>
         (\<forall>k. filter (\<lambda>x. length (adj g ! nat x) = k) ns
               = filter (\<lambda>x. length (adj g ! nat x) = k) (adj g ! nat u))"
    by (simp add: sort_key_stable)
next
  assume "\<not> (0 \<le> u \<and> u < gn g)"
  then show "neighbors g u = Inr []" by (rule neighbors_out)
next
  assume "gn h = gn g \<and> adj h = adj g"
  then show "neighbors h u = neighbors g u" using neighbors_cong [of h g u] by simp
qed

theorem neighbors_ordered_witness:
  "wf_graph star4 \<and> (0::int) \<le> 0 \<and> 0 < gn star4 \<and>
   (\<exists>ns. neighbors star4 0 = Inr ns \<and> mset ns = mset (adj star4 ! nat 0) \<and>
      sorted (map (\<lambda>x. length (adj star4 ! nat x)) ns) \<and>
      (\<forall>k. filter (\<lambda>x. length (adj star4 ! nat x) = k) ns
            = filter (\<lambda>x. length (adj star4 ! nat x) = k) (adj star4 ! nat 0))) \<and>
   neighbors star4 0 = Inr [3, 1, 2] \<and> neighbors star4 4 = Inr [] \<and>
   neighbors (star4\<lparr>directed := True\<rparr>) 0 = neighbors star4 0"
proof -
  have h: "wf_graph star4 \<and> (0::int) \<le> 0 \<and> 0 < gn star4"
    by (simp add: wf_graph_def star4_def)
  have o: "\<not> (0 \<le> (4::int) \<and> 4 < gn star4)" by (simp add: star4_def)
  have v: "neighbors star4 0 = Inr [3, 1, 2]" by code_simp
  have e: "gn (star4\<lparr>directed := True\<rparr>) = gn star4 \<and> adj (star4\<lparr>directed := True\<rparr>) = adj star4"
    by simp
  from neighbors_ordered [where g = star4 and u = 0 and h = "star4\<lparr>directed := True\<rparr>"]
       neighbors_ordered [where g = star4 and u = 4 and h = star4] h o v e
  show ?thesis by blast
qed

text \<open>
  The sequence is not determined by the adjacency sets alone. The two graphs below come
  from the same constructor call and the same two edges, added in either order; they have
  the same \<open>n\<close>, the same direction flag and the same adjacency sets, and \<open>neighbors\<close>
  returns the tied neighbours 0 and 8 of vertex 1 in different orders.
\<close>

theorem neighbors_same_sets_counterexample:
  "add_edges place_last (Graph_init 9 True) [(1, 8), (1, 0)] = Inr ties_a \<and>
   add_edges place_last (Graph_init 9 True) [(1, 0), (1, 8)] = Inr ties_b \<and>
   wf_graph ties_a \<and> wf_graph ties_b \<and>
   gn ties_a = gn ties_b \<and> directed ties_a = directed ties_b \<and>
   map set (adj ties_a) = map set (adj ties_b) \<and>
   neighbors ties_a 1 = Inr [8, 0] \<and> neighbors ties_b 1 = Inr [0, 8] \<and>
   neighbors ties_a 1 \<noteq> neighbors ties_b 1"
proof -
  have a: "add_edges place_last (Graph_init 9 True) [(1, 8), (1, 0)] = Inr ties_a" by code_simp
  have b: "add_edges place_last (Graph_init 9 True) [(1, 0), (1, 8)] = Inr ties_b" by code_simp
  have w: "wf_graph ties_a" "wf_graph ties_b" by (simp_all add: wf_graph_def ties_a_def ties_b_def)
  have e: "gn ties_a = gn ties_b" "directed ties_a = directed ties_b"
    "map set (adj ties_a) = map set (adj ties_b)"
    by (auto simp: ties_a_def ties_b_def)
  have n: "neighbors ties_a 1 = Inr [8, 0]" "neighbors ties_b 1 = Inr [0, 8]" by code_simp+
  from a b w e n show ?thesis by simp
qed

text \<open>
  C7. Whatever sequence of \<open>add_edge\<close> calls follows the constructor, no call raises and
  in the resulting graph every stored identifier lies in \<open>[0, n)\<close>, no vertex is in its
  own adjacency set, and, when the graph is not directed, \<open>v\<close> is in \<open>adj[u]\<close> exactly
  when \<open>u\<close> is in \<open>adj[v]\<close>.
\<close>

theorem adjacency_invariant:
  assumes "set_order place"
  shows "\<exists>g. add_edges place (Graph_init k d) es = Inr g \<and>
           gn g = k \<and> directed g = d \<and> length (adj g) = nat k \<and>
           (\<forall>u v. 0 \<le> u \<and> u < k \<and> v \<in> set (adj g ! nat u) \<longrightarrow> 0 \<le> v \<and> v < k \<and> v \<noteq> u) \<and>
           (\<not> d \<longrightarrow> (\<forall>u v. 0 \<le> u \<and> u < k \<and> 0 \<le> v \<and> v < k \<longrightarrow>
                     (v \<in> set (adj g ! nat u) \<longleftrightarrow> u \<in> set (adj g ! nat v))))"
proof -
  from add_edges_inv [OF assms Graph_init_inv, of k d es] obtain g where
    g: "add_edges place (Graph_init k d) es = Inr g" "adj_inv g"
       "gn g = gn (Graph_init k d)" "directed g = directed (Graph_init k d)"
    by blast
  then have k: "gn g = k" and d: "directed g = d" by (simp_all add: Graph_init_def)
  have len: "length (adj g) = nat k" using g(2) k by (simp add: adj_inv_def)
  note inv = g(2) [unfolded adj_inv_def, THEN conjunct2, rule_format]
  have mem: "0 \<le> v \<and> v < k \<and> v \<noteq> u \<and> (\<not> d \<longrightarrow> u \<in> set (adj g ! nat v))"
    if "0 \<le> u" "u < k" "v \<in> set (adj g ! nat u)" for u v
  proof -
    have "nat u < length (adj g)" using that len by simp
    from inv [OF this] that k d show ?thesis by auto
  qed
  from g(1) k d len mem show ?thesis by blast
qed

theorem adjacency_invariant_witness:
  "set_order place_last \<and>
   (\<exists>g. add_edges place_last (Graph_init 3 False) [(0, 1), (1, 1), (2, 7), (1, 2), (0, 1)] = Inr g \<and>
      gn g = 3 \<and> directed g = False \<and> length (adj g) = nat 3 \<and>
      (\<forall>u v. 0 \<le> u \<and> u < 3 \<and> v \<in> set (adj g ! nat u) \<longrightarrow> 0 \<le> v \<and> v < 3 \<and> v \<noteq> u) \<and>
      (\<not> False \<longrightarrow> (\<forall>u v. 0 \<le> u \<and> u < 3 \<and> 0 \<le> v \<and> v < 3 \<longrightarrow>
                (v \<in> set (adj g ! nat u) \<longleftrightarrow> u \<in> set (adj g ! nat v)))))"
proof -
  have s: "set_order place_last" by (simp add: set_order_def place_last_def)
  from adjacency_invariant [OF s, of 3 False "[(0, 1), (1, 1), (2, 7), (1, 2), (0, 1)]"] s
  show ?thesis by simp
qed

text \<open>
  C8. \<open>add_edge\<close> with equal endpoints or with an endpoint outside \<open>[0, n)\<close> raises
  nothing and returns the graph as it was; and a second \<open>add_edge\<close> with the same
  arguments leaves the graph as the first one made it.
\<close>

theorem add_edge_reject_idempotent:
  "(u = v \<or> \<not> (0 \<le> u \<and> u < gn g) \<or> \<not> (0 \<le> v \<and> v < gn g) \<longrightarrow> add_edge place g u v = Inr g) \<and>
   (set_order place \<and> wf_graph g \<longrightarrow>
      (\<exists>g1. add_edge place g u v = Inr g1 \<and> add_edge place g1 u v = Inr g1))"
proof (intro conjI impI)
  assume "u = v \<or> \<not> (0 \<le> u \<and> u < gn g) \<or> \<not> (0 \<le> v \<and> v < gn g)"
  then show "add_edge place g u v = Inr g" by (rule add_edge_reject)
next
  assume h: "set_order place \<and> wf_graph g"
  have "\<exists>g1. add_edge place g u v = Inr g1"
  proof (cases "u = v \<or> \<not> (0 \<le> u \<and> u < gn g) \<or> \<not> (0 \<le> v \<and> v < gn g)")
    case True
    then show ?thesis using add_edge_reject [of u v g place] by simp
  next
    case False
    then show ?thesis using h add_edge_valid [of g u v place] by (simp add: wf_graph_def)
  qed
  then obtain g1 where "add_edge place g u v = Inr g1" ..
  with h add_edge_idem [of place g u v g1]
  show "\<exists>g1. add_edge place g u v = Inr g1 \<and> add_edge place g1 u v = Inr g1" by blast
qed

theorem add_edge_reject_idempotent_witness:
  "add_edge place_last chain3 1 1 = Inr chain3 \<and>
   add_edge place_last chain3 0 3 = Inr chain3 \<and>
   add_edge place_last chain3 (- 1) 2 = Inr chain3 \<and>
   set_order place_last \<and> wf_graph chain3 \<and>
   (\<exists>g1. add_edge place_last chain3 2 0 = Inr g1 \<and> add_edge place_last g1 2 0 = Inr g1)"
proof -
  have s: "set_order place_last \<and> wf_graph chain3"
    by (simp add: set_order_def place_last_def wf_graph_def chain3_def)
  have r: "\<not> (0 \<le> (3::int) \<and> 3 < gn chain3)" "\<not> (0 \<le> (- 1::int) \<and> - 1 < gn chain3)"
    by (simp_all add: chain3_def)
  from add_edge_reject_idempotent [of 1 1 chain3 place_last]
       add_edge_reject_idempotent [of 0 3 chain3 place_last]
       add_edge_reject_idempotent [of "- 1" 2 chain3 place_last]
       add_edge_reject_idempotent [of 2 0 chain3 place_last] s r
  show ?thesis by blast
qed

section \<open>Claims about the validator\<close>

text \<open>
  C3. On a graph as the constructor and \<open>add_edge\<close> leave it, \<open>is_hamiltonian_path\<close>
  raises nothing for any list of integers, and it returns true exactly when the list has
  \<open>n\<close> entries, the set of its entries is \<open>{0, ..., n - 1}\<close>, and each entry has the next
  one in its adjacency set.
\<close>

theorem validator_total_and_exact:
  "wf_graph g \<Longrightarrow>
   is_hamiltonian_path g p =
     Inr (int (length p) = gn g \<and> set p = {0..<gn g} \<and>
          (\<forall>i. Suc i < length p \<longrightarrow> p ! Suc i \<in> set (adj g ! nat (p ! i))))"
proof -
  assume w: "wf_graph g"
  have "(\<forall>i\<in>{0..<length p - 1}. p ! Suc i \<in> set (adj g ! nat (p ! i)))
      = (\<forall>i. Suc i < length p \<longrightarrow> p ! Suc i \<in> set (adj g ! nat (p ! i)))"
    by (auto simp: less_diff_conv)
  then show ?thesis using is_hamiltonian_path_iff [OF w, of p] by (simp add: hamiltonian_def)
qed

theorem validator_total_and_exact_witness:
  "wf_graph star4 \<and>
   is_hamiltonian_path star4 [3, 0, 1, 9] =
     Inr (int (length [3, 0, 1, 9 :: int]) = gn star4 \<and> set [3, 0, 1, 9] = {0..<gn star4} \<and>
          (\<forall>i. Suc i < length [3, 0, 1, 9 :: int] \<longrightarrow>
             [3, 0, 1, 9] ! Suc i \<in> set (adj star4 ! nat ([3, 0, 1, 9] ! i)))) \<and>
   is_hamiltonian_path star4 [3, 0, 1, 9] = Inr False \<and>
   is_hamiltonian_path star4 [3, 0, 1, 2] = Inr True"
proof -
  have w: "wf_graph star4" by (simp add: wf_graph_def star4_def)
  have f: "is_hamiltonian_path star4 [3, 0, 1, 9] = Inr False" by code_simp
  have t: "is_hamiltonian_path star4 [3, 0, 1, 2] = Inr True" by code_simp
  from validator_total_and_exact [OF w, of "[3, 0, 1, 9]"] w f t show ?thesis by simp
qed

section \<open>Claims about the state of the search\<close>

text \<open>
  C4. When \<open>_backtrack\<close> returns \<open>None\<close>, \<open>path\<close> and \<open>visited\<close> are what they were when it
  was called.
\<close>

theorem backtrack_atomic:
  "backtrack d g current path visited = Inr (None, g', path', visited') \<Longrightarrow>
   path' = path \<and> visited' = visited"
  using backtrack_frame(1) [of d g current path visited None g' path' visited'] by simp

theorem backtrack_atomic_witness:
  "\<exists>g' path' visited'.
     backtrack 3 edge3 0 [0] [True, False, False] = Inr (None, g', path', visited') \<and>
     path' = [0] \<and> visited' = [True, False, False]"
proof -
  have e: "backtrack 3 edge3 0 [0] [True, False, False]
             = Inr (None, edge3, [0], [True, False, False])"
    by code_simp
  from backtrack_atomic [OF e] e show ?thesis by simp
qed

text \<open>
  C9. \<open>find_hamiltonian_path\<close> leaves the graph as it was, whether it returns a path or
  \<open>None\<close>.
\<close>

theorem search_read_only:
  "find_hamiltonian_path d g = Inr (r, g') \<Longrightarrow>
   g' = g \<and> gn g' = gn g \<and> directed g' = directed g \<and> adj g' = adj g"
  using find_loop_frame [of d "gn g" "py_range (gn g)" g r g']
  by (auto simp: find_hamiltonian_path_def Let_def split: if_splits)

theorem search_read_only_witness:
  "(\<exists>r g'. find_hamiltonian_path 3 chain3 = Inr (r, g') \<and> r \<noteq> None \<and>
      g' = chain3 \<and> gn g' = gn chain3 \<and> directed g' = directed chain3 \<and> adj g' = adj chain3) \<and>
   (\<exists>g'. find_hamiltonian_path 3 edge3 = Inr (None, g') \<and>
      g' = edge3 \<and> gn g' = gn edge3 \<and> directed g' = directed edge3 \<and> adj g' = adj edge3)"
proof -
  have a: "find_hamiltonian_path 3 chain3 = Inr (Some [0, 1, 2], chain3)" by code_simp
  have b: "find_hamiltonian_path 3 edge3 = Inr (None, edge3)" by code_simp
  from search_read_only [OF a] search_read_only [OF b] a b show ?thesis by simp
qed

section \<open>Claims about the search\<close>

text \<open>
  C1. Soundness: a path returned by \<open>find_hamiltonian_path\<close> is accepted by
  \<open>is_hamiltonian_path\<close> on the same graph.
\<close>

theorem search_sound:
  "wf_graph g \<Longrightarrow> find_hamiltonian_path d g = Inr (Some p, g') \<Longrightarrow>
   is_hamiltonian_path g p = Inr True"
  using find_sound [of g d p g'] is_hamiltonian_path_iff [of g p] by simp

theorem search_sound_witness:
  "wf_graph chain3 \<and> find_hamiltonian_path 3 chain3 = Inr (Some [0, 1, 2], chain3) \<and>
   is_hamiltonian_path chain3 [0, 1, 2] = Inr True"
proof -
  have w: "wf_graph chain3" by (simp add: wf_graph_def chain3_def)
  have f: "find_hamiltonian_path 3 chain3 = Inr (Some [0, 1, 2], chain3)" by code_simp
  from search_sound [OF w f] w f show ?thesis by simp
qed

text \<open>
  C2. Completeness: with \<open>n\<close> frames for \<open>_backtrack\<close>, \<open>find_hamiltonian_path\<close> returns,
  and it returns \<open>None\<close> exactly when the graph has no Hamiltonian path; when there is
  one, it returns a path.
\<close>

theorem search_complete:
  "wf_graph g \<Longrightarrow> nat (gn g) \<le> d \<Longrightarrow>
   \<exists>r. find_hamiltonian_path d g = Inr (r, g) \<and>
       (r = None \<longleftrightarrow> \<not> (\<exists>p. hamiltonian g p)) \<and>
       ((\<exists>p. hamiltonian g p) \<longrightarrow> (\<exists>p. r = Some p))"
proof -
  assume "wf_graph g" "nat (gn g) \<le> d"
  from find_complete [OF this] obtain r where
    r: "find_hamiltonian_path d g = Inr (r, g)" "r = None \<longleftrightarrow> \<not> (\<exists>p. hamiltonian g p)"
    by blast
  then have "(\<exists>p. hamiltonian g p) \<longrightarrow> (\<exists>p. r = Some p)" by (cases r) auto
  with r show ?thesis by blast
qed

theorem search_complete_witness:
  "wf_graph edge3 \<and> nat (gn edge3) \<le> 3 \<and>
   find_hamiltonian_path 3 edge3 = Inr (None, edge3) \<and> \<not> (\<exists>p. hamiltonian edge3 p)"
proof -
  have w: "wf_graph edge3" by (simp add: wf_graph_def edge3_def)
  have d: "nat (gn edge3) \<le> 3" by (simp add: edge3_def)
  have f: "find_hamiltonian_path 3 edge3 = Inr (None, edge3)" by code_simp
  from search_complete [OF w d] w d f show ?thesis by auto
qed

text \<open>
  C6. Termination and depth: from a state in which \<open>visited\<close> marks exactly the vertices
  of \<open>path\<close>, \<open>_backtrack\<close> returns as soon as more than \<open>n - len(path)\<close> nested frames are
  available; so the whole search, which starts with one vertex on the path, returns with
  \<open>n\<close> frames.
\<close>

theorem backtrack_depth_bound:
  "(wf_graph g \<and> consistent g path visited \<and> nat (gn g) - length path < d \<longrightarrow>
      (\<exists>r path' visited'. backtrack d g current path visited = Inr (r, g, path', visited'))) \<and>
   (wf_graph g \<and> nat (gn g) \<le> d \<longrightarrow> (\<exists>r. find_hamiltonian_path d g = Inr (r, g)))"
  using backtrack_returns [of g path visited d current] find_complete [of g d] by blast

theorem backtrack_depth_bound_witness:
  "wf_graph chain3 \<and> consistent chain3 [0] [True, False, False] \<and>
   nat (gn chain3) - length [0 :: int] < 3 \<and> nat (gn chain3) \<le> 3 \<and>
   (\<exists>r path' visited'. backtrack 3 chain3 0 [0] [True, False, False]
       = Inr (r, chain3, path', visited')) \<and>
   (\<exists>r. find_hamiltonian_path 3 chain3 = Inr (r, chain3)) \<and>
   backtrack 2 chain3 0 [0] [True, False, False] = Inl RecursionError"
proof -
  have w: "wf_graph chain3" by (simp add: wf_graph_def chain3_def)
  have c: "consistent chain3 [0] [True, False, False]"
    by (simp add: consistent_def chain3_def less_Suc_eq numeral_3_eq_3)
  have d: "nat (gn chain3) - length [0 :: int] < 3" "nat (gn chain3) \<le> 3"
    by (simp_all add: chain3_def)
  have e: "backtrack 2 chain3 0 [0] [True, False, False] = Inl RecursionError" by code_simp
  from backtrack_depth_bound [of chain3 "[0]" "[True, False, False]" 3 0] w c d e
  show ?thesis by blast
qed

text \<open>
  C10. Minimal start: on a graph with at least two vertices, the path that
  \<open>find_hamiltonian_path\<close> returns is a Hamiltonian path, and no Hamiltonian path of the
  graph starts at a smaller vertex than it does.
\<close>

theorem search_minimal_start:
  "wf_graph g \<Longrightarrow> 2 \<le> gn g \<Longrightarrow> find_hamiltonian_path d g = Inr (Some p, g') \<Longrightarrow>
   p \<noteq> [] \<and> hamiltonian g p \<and> (\<forall>q. hamiltonian g q \<longrightarrow> q \<noteq> [] \<and> hd p \<le> hd q)"
proof -
  assume a: "wf_graph g" "2 \<le> gn g" "find_hamiltonian_path d g = Inr (Some p, g')"
  have h: "hamiltonian g p" using find_sound [OF a(1) a(3)] .
  from find_minimal [OF a h] have "p \<noteq> []" by simp
  with h find_minimal [OF a] show ?thesis by blast
qed

theorem search_minimal_start_witness:
  "wf_graph rev_chain3 \<and> 2 \<le> gn rev_chain3 \<and>
   find_hamiltonian_path 3 rev_chain3 = Inr (Some [2, 1, 0], rev_chain3) \<and>
   hamiltonian rev_chain3 [2, 1, 0] \<and>
   \<not> hamiltonian rev_chain3 [0, 2, 1] \<and> \<not> hamiltonian rev_chain3 [1, 0, 2]"
proof -
  have w: "wf_graph rev_chain3" by (simp add: wf_graph_def rev_chain3_def)
  have k: "2 \<le> gn rev_chain3" by (simp add: rev_chain3_def)
  have f: "find_hamiltonian_path 3 rev_chain3 = Inr (Some [2, 1, 0], rev_chain3)" by code_simp
  from search_minimal_start [OF w k f]
  have m: "hamiltonian rev_chain3 [2, 1, 0]"
    "\<forall>q. hamiltonian rev_chain3 q \<longrightarrow> hd [2, 1, 0 :: int] \<le> hd q" by simp_all
  from m(2) [rule_format, of "[0, 2, 1]"] m(2) [rule_format, of "[1, 0, 2]"]
  have "\<not> hamiltonian rev_chain3 [0, 2, 1]" "\<not> hamiltonian rev_chain3 [1, 0, 2]" by auto
  with w k f m(1) show ?thesis by simp
qed

end
